theory Spec2Isabelle
  imports Main
begin

section \<open>Strings\<close>

text \<open>
  A JavaScript string is a sequence of UTF-16 code units; it is modelled as a list of
  natural numbers, one per code unit.  Literals are written with \<open>js\<close>, which maps
  every character of an ASCII literal to its code.
\<close>

type_synonym jstring = "nat list"

definition js :: "string \<Rightarrow> jstring" where
  "js s = map of_char s"

text \<open>
  The class \<^verbatim>\<open>\s\<close> of regular expressions, which is also the set that
  \<^verbatim>\<open>trim\<close>, \<^verbatim>\<open>trimEnd\<close> strip: WhiteSpace and LineTerminator of ECMAScript.
\<close>

definition is_lt :: "nat \<Rightarrow> bool" where
  "is_lt c = (c = 10 \<or> c = 13 \<or> c = 8232 \<or> c = 8233)"

definition is_space :: "nat \<Rightarrow> bool" where
  "is_space c = (c = 9 \<or> c = 10 \<or> c = 11 \<or> c = 12 \<or> c = 13 \<or> c = 32 \<or> c = 160
     \<or> c = 5760 \<or> (8192 \<le> c \<and> c \<le> 8202) \<or> c = 8232 \<or> c = 8233 \<or> c = 8239
     \<or> c = 8287 \<or> c = 12288 \<or> c = 65279)"

text \<open>The class \<^verbatim>\<open>\w\<close>: ASCII letters, digits and the underscore.\<close>

definition is_word :: "nat \<Rightarrow> bool" where
  "is_word c = ((48 \<le> c \<and> c \<le> 57) \<or> (65 \<le> c \<and> c \<le> 90) \<or> c = 95 \<or> (97 \<le> c \<and> c \<le> 122))"

text \<open>
  \<^verbatim>\<open>toLowerCase\<close>.  On a string of ASCII code units it lower-cases the letters A to Z
  and changes nothing else.  On any other string the result follows the case mappings
  of Unicode (which can change the length of the string); they are not modelled, and
  the result is left unspecified.  \<open>lower_cu\<close> is also the case folding that a regular
  expression with the flag \<^verbatim>\<open>i\<close> applies when it compares a code unit with an ASCII
  character of the pattern.
\<close>

definition lower_cu :: "nat \<Rightarrow> nat" where
  "lower_cu c = (if 65 \<le> c \<and> c \<le> 90 then c + 32 else c)"

definition toLowerCase :: "jstring \<Rightarrow> jstring" where
  "toLowerCase s = (if list_all (\<lambda>c. c < 128) s then map lower_cu s else undefined s)"

definition trimStart :: "jstring \<Rightarrow> jstring" where
  "trimStart s = dropWhile is_space s"

definition trimEnd :: "jstring \<Rightarrow> jstring" where
  "trimEnd s = rev (dropWhile is_space (rev s))"

definition trim :: "jstring \<Rightarrow> jstring" where
  "trim s = trimStart (trimEnd s)"

text \<open>\<^verbatim>\<open>s.startsWith(p)\<close>, \<^verbatim>\<open>s.indexOf(p)\<close> (None for -1) and \<^verbatim>\<open>s.includes(p)\<close>.\<close>

definition startsWith :: "jstring \<Rightarrow> jstring \<Rightarrow> bool" where
  "startsWith s p = (take (length p) s = p)"

fun indexOf :: "jstring \<Rightarrow> jstring \<Rightarrow> nat option" where
  "indexOf [] p = (if p = [] then Some 0 else None)"
| "indexOf (c # s) p =
     (if startsWith (c # s) p then Some 0 else map_option Suc (indexOf s p))"

definition includes_str :: "jstring \<Rightarrow> jstring \<Rightarrow> bool" where
  "includes_str s p = (indexOf s p \<noteq> None)"

text \<open>\<^verbatim>\<open>s.split("\n")\<close>: an empty string gives one empty line.\<close>

fun split_nl :: "jstring \<Rightarrow> jstring list" where
  "split_nl [] = [[]]"
| "split_nl (c # s) =
     (if c = 10 then [] # split_nl s
      else (let r = split_nl s in (c # hd r) # tl r))"

text \<open>
  \<^verbatim>\<open>s.split(/\r?\n/)\<close>: the separator is a line feed, together with the carriage
  return right before it when there is one.
\<close>

fun split_crlf :: "jstring \<Rightarrow> jstring list" where
  "split_crlf [] = [[]]"
| "split_crlf [c] = (if c = 10 then [[], []] else [[c]])"
| "split_crlf (c # d # s) =
     (if c = 10 then [] # split_crlf (d # s)
      else if c = 13 \<and> d = 10 then [] # split_crlf s
      else (let r = split_crlf (d # s) in (c # hd r) # tl r))"

text \<open>\<^verbatim>\<open>ls.join("\n")\<close>.\<close>

fun join_nl :: "jstring list \<Rightarrow> jstring" where
  "join_nl [] = []"
| "join_nl [l] = l"
| "join_nl (l # m # ls) = l @ [10] @ join_nl (m # ls)"

text \<open>\<^verbatim>\<open>ls.slice(a, b)\<close> for \<open>0 \<le> a\<close>, \<open>0 \<le> b\<close>.\<close>

definition slice :: "nat \<Rightarrow> nat \<Rightarrow> 'a list \<Rightarrow> 'a list" where
  "slice a b xs = take (b - a) (drop a xs)"

text \<open>
  \<^verbatim>\<open>s.replace(/\n{3,}/g, "\n\n")\<close>: scanning from the left, every maximal run of three
  or more line feeds becomes two line feeds.
\<close>

function collapse :: "jstring \<Rightarrow> jstring" where
  "collapse [] = []"
| "collapse (c # s) =
     (if c = 10 \<and> 2 \<le> length (takeWhile (\<lambda>x. x = 10) s)
      then [10, 10] @ collapse (dropWhile (\<lambda>x. x = 10) s)
      else c # collapse s)"
  by pat_completeness auto
termination
  by (relation "measure length") (auto simp: length_dropWhile_le less_Suc_eq_le)

text \<open>\<^verbatim>\<open>String(n)\<close> for a non-negative integer: its decimal digits.\<close>

fun show_nat :: "nat \<Rightarrow> jstring" where
  "show_nat n = (if n < 10 then [48 + n] else show_nat (n div 10) @ [48 + n mod 10])"

declare show_nat.simps [simp del]

section \<open>Regular expressions\<close>

text \<open>
  The fragment of ECMAScript regular expressions that the program uses, with the
  backtracking semantics of the language: \<open>rmatch\<close> returns, in the order in which the
  backtracking matcher tries them, the states in which the expression can leave the
  input when started in a given state.  A state is the input before the current
  position, the input from it on, and the captures made so far.
\<close>

datatype rx =
    Eps
  | Lit jstring
  | Rep "nat \<Rightarrow> bool" nat
  | Opt rx
  | Seq rx rx
  | Bol
  | Eol
  | Grp nat rx

record flags =
  ignoreCase :: bool
  multiline :: bool

record mstate =
  pre :: jstring
  rest :: jstring
  caps :: "(nat \<times> jstring) list"

definition canon :: "flags \<Rightarrow> nat \<Rightarrow> nat" where
  "canon fl c = (if ignoreCase fl then lower_cu c else c)"

definition adv :: "nat \<Rightarrow> mstate \<Rightarrow> mstate" where
  "adv k st = st\<lparr>pre := pre st @ take k (rest st), rest := drop k (rest st)\<rparr>"

text \<open>
  \<open>Lit w\<close> is a run of literal characters; \<open>Rep P lo\<close> is the greedy repetition
  \<^verbatim>\<open>C{lo,}\<close> of a character class \<open>C\<close> given by its predicate (so \<^verbatim>\<open>C*\<close> is \<open>Rep P 0\<close>
  and \<^verbatim>\<open>C+\<close> is \<open>Rep P 1\<close>): the longest run first, then shorter ones; \<open>Opt r\<close> is the
  greedy \<^verbatim>\<open>r?\<close>; \<open>Bol\<close> and \<open>Eol\<close> are \<^verbatim>\<open>^\<close> and \<^verbatim>\<open>$\<close>; \<open>Grp n r\<close> is the capturing
  group number \<open>n\<close>.
\<close>

primrec rmatch :: "flags \<Rightarrow> rx \<Rightarrow> mstate \<Rightarrow> mstate list" where
  "rmatch fl Eps st = [st]"
| "rmatch fl (Lit w) st =
     (if length w \<le> length (rest st)
         \<and> map (canon fl) (take (length w) (rest st)) = map (canon fl) w
      then [adv (length w) st] else [])"
| "rmatch fl (Rep P lo) st =
     map (\<lambda>k. adv k st) (rev [lo ..< Suc (length (takeWhile P (rest st)))])"
| "rmatch fl (Opt r) st = rmatch fl r st @ [st]"
| "rmatch fl (Seq r1 r2) st = concat (map (rmatch fl r2) (rmatch fl r1 st))"
| "rmatch fl Bol st =
     (if pre st = [] \<or> (multiline fl \<and> is_lt (last (pre st))) then [st] else [])"
| "rmatch fl Eol st =
     (if rest st = [] \<or> (multiline fl \<and> is_lt (hd (rest st))) then [st] else [])"
| "rmatch fl (Grp n r) st =
     map (\<lambda>st'. st'\<lparr>caps := (n, take (length (rest st) - length (rest st')) (rest st)) # caps st'\<rparr>)
       (rmatch fl r st)"

fun seqs :: "rx list \<Rightarrow> rx" where
  "seqs [] = Eps"
| "seqs [r] = r"
| "seqs (r # q # rs) = Seq r (seqs (q # rs))"

text \<open>
  \<^verbatim>\<open>re.exec(s)\<close> for an expression without the global and sticky flags: the first
  position, from the left, at which the expression matches, with the first way of
  matching there.  \<^verbatim>\<open>re.test(s)\<close> says whether there is one.
\<close>

fun exec_from :: "flags \<Rightarrow> rx \<Rightarrow> jstring \<Rightarrow> jstring \<Rightarrow> mstate option" where
  "exec_from fl r p [] =
     (case rmatch fl r \<lparr>pre = p, rest = [], caps = []\<rparr> of [] \<Rightarrow> None | m # _ \<Rightarrow> Some m)"
| "exec_from fl r p (c # s) =
     (case rmatch fl r \<lparr>pre = p, rest = c # s, caps = []\<rparr> of
        [] \<Rightarrow> exec_from fl r (p @ [c]) s
      | m # _ \<Rightarrow> Some m)"

definition exec :: "flags \<Rightarrow> rx \<Rightarrow> jstring \<Rightarrow> mstate option" where
  "exec fl r s = exec_from fl r [] s"

definition test :: "flags \<Rightarrow> rx \<Rightarrow> jstring \<Rightarrow> bool" where
  "test fl r s = (exec fl r s \<noteq> None)"

text \<open>The capture \<open>m[n]\<close> of a match; None is \<^verbatim>\<open>undefined\<close>.\<close>

definition capture :: "mstate \<Rightarrow> nat \<Rightarrow> jstring option" where
  "capture m n = map_of (caps m) n"

section \<open>The changelog document (changelog.ts)\<close>

definition HEADER :: jstring where
  "HEADER = js ''# Changelog\<newline>All notable changes to this project will be documented in this file.\<newline>\<newline>## [Unreleased]\<newline>\<newline>''"

text \<open>\<^verbatim>\<open>/^\#\s*Changelog/im\<close>\<close>

definition flags_im :: flags where
  "flags_im = \<lparr>ignoreCase = True, multiline = True\<rparr>"

definition flags_i :: flags where
  "flags_i = \<lparr>ignoreCase = True, multiline = False\<rparr>"

definition flags_none :: flags where
  "flags_none = \<lparr>ignoreCase = False, multiline = False\<rparr>"

definition TITLE_RE :: rx where
  "TITLE_RE = seqs [Bol, Lit (js ''#''), Rep is_space 0, Lit (js ''Changelog'')]"

text \<open>\<^verbatim>\<open>UNRELEASED_HEADER_RE = /^##\s*\[?\s*unreleased\s*\]?\s*$/im\<close>\<close>

definition UNRELEASED_HEADER_RE :: rx where
  "UNRELEASED_HEADER_RE =
     seqs [Bol, Lit (js ''##''), Rep is_space 0, Opt (Lit (js ''['')), Rep is_space 0,
           Lit (js ''unreleased''), Rep is_space 0, Opt (Lit (js '']'')), Rep is_space 0, Eol]"

text \<open>\<^verbatim>\<open>/^##\s+/\<close>, the start of the next section in captureUnreleased.\<close>

definition SECTION_RE :: rx where
  "SECTION_RE = seqs [Bol, Lit (js ''##''), Rep is_space 1]"

definition UNRELEASED_INSERT :: jstring where
  "UNRELEASED_INSERT = js ''\<newline>## [Unreleased]\<newline>\<newline>''"

text \<open>
  ensureHeaderAndUnreleased: prepend the header when the title pattern does not match
  the text, then, when the staging pattern does not match, insert a staging section in
  front of the first line feed that is followed by \<^verbatim>\<open>## \<close> (or at the end when there
  is none).
\<close>

definition ensureHeaderAndUnreleased :: "jstring \<Rightarrow> jstring" where
  "ensureHeaderAndUnreleased text =
     (let t = (if \<not> test flags_im TITLE_RE text then HEADER @ text else text)
      in if \<not> test flags_im UNRELEASED_HEADER_RE t
         then (case indexOf t (js ''\<newline>## '') of
                 Some idx \<Rightarrow> take idx t @ UNRELEASED_INSERT @ drop idx t
               | None \<Rightarrow> t @ UNRELEASED_INSERT)
         else t)"

text \<open>
  captureUnreleased.  The result for a text without a staging header line (start = -1
  in the source) is None; otherwise the record holds the index of the header line, the
  index of the next line that starts a section (or the number of lines), the header
  line, the lines between the two joined again, and all lines.
\<close>

record captured =
  cstart :: nat
  cend :: nat
  cheader :: jstring
  cbody :: jstring
  clines :: "jstring list"

definition first_index :: "('a \<Rightarrow> bool) \<Rightarrow> 'a list \<Rightarrow> nat option" where
  "first_index P xs =
     (if list_ex P xs then Some (length (takeWhile (\<lambda>x. \<not> P x) xs)) else None)"

definition captureUnreleased :: "jstring \<Rightarrow> captured option" where
  "captureUnreleased text =
     (let lines = split_crlf text in
      case first_index (test flags_im UNRELEASED_HEADER_RE) lines of
        None \<Rightarrow> None
      | Some start \<Rightarrow>
          (let endi = (case first_index (test flags_none SECTION_RE) (drop (start + 1) lines) of
                        None \<Rightarrow> length lines
                      | Some k \<Rightarrow> start + 1 + k)
           in Some \<lparr>cstart = start, cend = endi, cheader = lines ! start,
                     cbody = join_nl (slice (start + 1) endi lines), clines = lines\<rparr>))"

text \<open>
  normalizeTitleForBullet, with the expression
  \<^verbatim>\<open>/^(\w+)(?:\([^)]+\))?!?:\s*(.+)$/\<close>.
\<close>

definition BULLET_RE :: rx where
  "BULLET_RE =
     seqs [Bol, Grp 1 (Rep is_word 1),
           Opt (seqs [Lit (js ''(''), Rep (\<lambda>c. c \<noteq> 41) 1, Lit (js '')'')]),
           Opt (Lit (js ''!'')), Lit (js '':''), Rep is_space 0,
           Grp 2 (Rep (\<lambda>c. \<not> is_lt c) 1), Eol]"

definition normalizeTitleForBullet :: "jstring \<Rightarrow> jstring" where
  "normalizeTitleForBullet title =
     (case exec flags_none BULLET_RE (trim title) of
        Some m \<Rightarrow> the (capture m 2)
      | None \<Rightarrow> trim title)"

text \<open>
  formatBullet.  The number of the pull request is a natural number; the scope is
  optional, and an empty scope counts as absent (the source tests its truthiness).
\<close>

definition formatBullet :: "jstring \<Rightarrow> nat \<Rightarrow> jstring option \<Rightarrow> jstring" where
  "formatBullet title prNumber scope =
     (let t = normalizeTitleForBullet title;
          scopePrefix = (case scope of
                           Some s \<Rightarrow> if s \<noteq> [] then js ''['' @ s @ js ''] '' else []
                         | None \<Rightarrow> [])
      in js ''- '' @ scopePrefix @ t @ js '' (#'' @ show_nat prNumber @ js '')'')"

definition catHeader :: "jstring \<Rightarrow> jstring" where
  "catHeader category = js ''### '' @ category"

text \<open>insertIntoUnreleasedCategory.\<close>

definition insertIntoUnreleasedCategory :: "jstring \<Rightarrow> jstring \<Rightarrow> jstring \<Rightarrow> jstring" where
  "insertIntoUnreleasedCategory unreleasedBody category bullet =
     (let categoryHeader = catHeader category;
          lines = split_nl unreleasedBody
      in case first_index (\<lambda>l. toLowerCase (trim l) = toLowerCase (trim categoryHeader)) lines of
           None \<Rightarrow>
             (let trimmed = trimEnd unreleasedBody;
                  suffix = drop (length trimmed) unreleasedBody;
                  block = (if trimmed \<noteq> [] then trimmed @ js ''\<newline>\<newline>'' else [])
                            @ categoryHeader @ js ''\<newline>'' @ bullet @ js ''\<newline>''
              in block @ suffix)
         | Some catStart \<Rightarrow>
             (let insertAt = catStart + 1
                    + length (takeWhile (\<lambda>l. trim l = []) (drop (catStart + 1) lines));
                  lines' = take insertAt lines @ [bullet] @ drop insertAt lines;
                  lines'' = (if last lines' \<noteq> [] then lines' @ [[]] else lines')
              in join_nl lines''))"

text \<open>replaceUnreleasedSection.\<close>

definition replaceUnreleasedSection :: "jstring \<Rightarrow> (jstring \<Rightarrow> jstring) \<Rightarrow> jstring" where
  "replaceUnreleasedSection fullText updater =
     (let t = ensureHeaderAndUnreleased fullText in
      case captureUnreleased t of
        None \<Rightarrow> t
      | Some cap \<Rightarrow>
          (let updatedBody = updater (cbody cap);
               before = join_nl (slice 0 (cstart cap + 1) (clines cap));
               after = join_nl (drop (cend cap) (clines cap))
           in collapse (join_nl [before, trimEnd updatedBody, [], after])))"

text \<open>
  addUnreleasedEntry, without the reading and the writing of the file: the new content
  of the file from its old content (None when the file does not exist).
\<close>

record entry =
  entry_prNumber :: nat
  entry_title :: jstring
  entry_category :: jstring
  entry_scope :: "jstring option"

definition addUnreleasedEntry :: "jstring option \<Rightarrow> entry \<Rightarrow> jstring" where
  "addUnreleasedEntry file e =
     (let base = (case file of Some content \<Rightarrow> content | None \<Rightarrow> HEADER)
      in replaceUnreleasedSection (ensureHeaderAndUnreleased base)
           (\<lambda>body. insertIntoUnreleasedCategory body (entry_category e)
                      (formatBullet (entry_title e) (entry_prNumber e) (entry_scope e))))"

text \<open>\<^verbatim>\<open>tag.replace(/^v/i, "")\<close>\<close>

definition strip_v :: "jstring \<Rightarrow> jstring" where
  "strip_v tag = (case tag of c # s \<Rightarrow> if c = 118 \<or> c = 86 then s else tag | [] \<Rightarrow> [])"

definition version_of_tag :: "jstring option \<Rightarrow> jstring" where
  "version_of_tag tag_name =
     (let tag = (case tag_name of Some s \<Rightarrow> s | None \<Rightarrow> []);
          stripped = strip_v tag
      in if stripped \<noteq> [] then stripped else js ''0.0.0'')"

definition versionHeader :: "jstring \<Rightarrow> jstring \<Rightarrow> jstring" where
  "versionHeader version dateStr =
     js ''## ['' @ version @ js ''] '' @ [8211] @ js '' '' @ dateStr @ js ''\<newline>''"



section \<open>Classification (categorize.ts)\<close>

text \<open>\<^verbatim>\<open>CC_RE = /^(\w+)(?:\(([^)]+)\))?(!)?:\s*(.+)$/i\<close>\<close>

definition CC_RE :: rx where
  "CC_RE =
     seqs [Bol, Grp 1 (Rep is_word 1),
           Opt (seqs [Lit (js ''(''), Grp 2 (Rep (\<lambda>c. c \<noteq> 41) 1), Lit (js '')'')]),
           Opt (Grp 3 (Lit (js ''!''))), Lit (js '':''), Rep is_space 0,
           Grp 4 (Rep (\<lambda>c. \<not> is_lt c) 1), Eol]"

definition BREAKING_TOKENS :: "jstring list" where
  "BREAKING_TOKENS =
     [js ''breaking change'', js ''breaking changes'', js ''breaking-change'', js ''breaking'']"

definition COMMON_LABEL_ALIASES :: "(jstring \<times> jstring) list" where
  "COMMON_LABEL_ALIASES =
     [(js ''type: feat'', js ''feat''), (js ''type: feature'', js ''feat''),
      (js ''enhancement'', js ''feat''), (js ''feature'', js ''feat''), (js ''feat'', js ''feat''),
      (js ''type: fix'', js ''fix''), (js ''bug'', js ''fix''), (js ''bugfix'', js ''fix''),
      (js ''hotfix'', js ''fix''), (js ''fix'', js ''fix''),
      (js ''docs'', js ''docs''), (js ''documentation'', js ''docs''),
      (js ''perf'', js ''perf''), (js ''performance'', js ''perf''),
      (js ''refactor'', js ''refactor''), (js ''refactoring'', js ''refactor''),
      (js ''test'', js ''test''), (js ''tests'', js ''test''),
      (js ''chore'', js ''chore''), (js ''maintenance'', js ''chore'')]"

text \<open>
  The table is an object literal, so reading a key that it does not have falls through to
  \<^verbatim>\<open>Object.prototype\<close>: for the names below the result is a function or an object, which
  is not \<^verbatim>\<open>undefined\<close> and is equal to no string.
\<close>

datatype jsval = Str jstring | Inherited

definition OBJECT_PROTOTYPE_KEYS :: "jstring list" where
  "OBJECT_PROTOTYPE_KEYS =
     [js ''constructor'', js ''__defineGetter__'', js ''__defineSetter__'', js ''hasOwnProperty'',
      js ''__lookupGetter__'', js ''__lookupSetter__'', js ''isPrototypeOf'',
      js ''propertyIsEnumerable'', js ''toString'', js ''valueOf'', js ''__proto__'',
      js ''toLocaleString'']"

definition alias_lookup :: "jstring \<Rightarrow> jsval option" where
  "alias_lookup k =
     (case map_of COMMON_LABEL_ALIASES k of
        Some v \<Rightarrow> Some (Str v)
      | None \<Rightarrow> if k \<in> set OBJECT_PROTOTYPE_KEYS then Some Inherited else None)"

definition norm :: "jstring \<Rightarrow> jstring" where
  "norm s = toLowerCase (trim s)"

text \<open>\<^verbatim>\<open>s.replace(/^type:\s*/, "")\<close> and the like: a prefix and the white space after it.\<close>

definition strip_prefix_ws :: "jstring \<Rightarrow> jstring \<Rightarrow> jstring" where
  "strip_prefix_ws p s = (if startsWith s p then dropWhile is_space (drop (length p) s) else s)"

definition normalizeLabel :: "jstring \<Rightarrow> jsval" where
  "normalizeLabel l =
     (let n = norm l;
          stripped = strip_prefix_ws (js ''kind:'') (strip_prefix_ws (js ''type:'') n)
      in case alias_lookup stripped of
           Some v \<Rightarrow> v
         | None \<Rightarrow> (case alias_lookup n of Some v \<Rightarrow> v | None \<Rightarrow> Str stripped))"

text \<open>
  The configuration: the categories with their aliases, in the order of the keys of the
  object, and the optional list of labels that mark a breaking change.
\<close>

record config =
  categories :: "(jstring \<times> jstring list) list"
  breakingLabels :: "jstring list option"

record categorizeResult =
  category :: jstring
  breaking :: bool
  scope :: "jstring option"

definition aliases_of :: "config \<Rightarrow> jstring \<Rightarrow> jstring list" where
  "aliases_of cfg cat = (case map_of (categories cfg) cat of Some a \<Rightarrow> a | None \<Rightarrow> [])"

definition aliasToCategory :: "config \<Rightarrow> (jstring \<rightharpoonup> jstring)" where
  "aliasToCategory cfg =
     fold (\<lambda>cat m. fold (\<lambda>alias m'. m'(norm alias \<mapsto> cat)) (aliases_of cfg cat) (m(norm cat \<mapsto> cat)))
       (map fst (categories cfg)) Map.empty"

text \<open>The title parsed with \<open>CC_RE\<close>: the type, the scope and the bang.\<close>

definition cc_type :: "jstring \<Rightarrow> jstring option" where
  "cc_type title = (case exec flags_i CC_RE title of
                      Some m \<Rightarrow> map_option norm (capture m 1) | None \<Rightarrow> None)"

definition cc_scope :: "jstring \<Rightarrow> jstring option" where
  "cc_scope title = (case exec flags_i CC_RE title of Some m \<Rightarrow> capture m 2 | None \<Rightarrow> None)"

definition cc_bang :: "jstring \<Rightarrow> bool" where
  "cc_bang title = (case exec flags_i CC_RE title of
                      Some m \<Rightarrow> capture m 3 \<noteq> None | None \<Rightarrow> False)"

text \<open>The three signals of a breaking change, as the source computes them.\<close>

definition label_breaks :: "config \<Rightarrow> jstring list \<Rightarrow> bool" where
  "label_breaks cfg labels =
     (case breakingLabels cfg of
        None \<Rightarrow> False
      | Some bl \<Rightarrow>
          bl \<noteq> [] \<and>
          list_ex (\<lambda>lab. lab \<in> set (map (\<lambda>b. Str (norm b)) bl)
                          \<or> lab = Str (js ''breaking'') \<or> lab = Str (js ''breaking-change''))
            (map normalizeLabel labels))"

definition title_breaks :: "jstring \<Rightarrow> bool" where
  "title_breaks title = list_ex (\<lambda>tok. includes_str (norm title) tok) BREAKING_TOKENS"

text \<open>
  A category matches the labels when its own name, or one of its aliases, is among the
  normalized labels.
\<close>

definition label_matches :: "config \<Rightarrow> jsval list \<Rightarrow> jstring \<Rightarrow> bool" where
  "label_matches cfg normedLabels cat =
     (Str (norm cat) \<in> set normedLabels
      \<or> list_ex (\<lambda>lab. lab \<in> set (map (\<lambda>a. Str (norm a)) (aliases_of cfg cat))) normedLabels)"

definition FALLBACKS :: "jstring list" where
  "FALLBACKS = [js ''Features'', js ''Fixes'', js ''Docs'', js ''Performance'', js ''Refactor'',
                js ''Tests'', js ''Chores'', js ''Misc'']"

definition categorize :: "jstring \<Rightarrow> jstring list \<Rightarrow> config \<Rightarrow> categorizeResult" where
  "categorize title labels cfg =
     (let categoryOrder = map fst (categories cfg);
          type = cc_type title;
          scope = cc_scope title;
          bang = cc_bang title;
          breaking = bang;
          breaking = (if \<not> breaking then label_breaks cfg labels else breaking);
          breaking = (if \<not> breaking \<and> title_breaks title then True else breaking);
          normedLabels = map normalizeLabel labels
      in case List.find (label_matches cfg normedLabels) categoryOrder of
           Some cat \<Rightarrow> \<lparr>category = cat, breaking = breaking, scope = scope\<rparr>
         | None \<Rightarrow>
             (case (case type of Some ty \<Rightarrow> aliasToCategory cfg ty | None \<Rightarrow> None) of
                Some cat \<Rightarrow> \<lparr>category = cat, breaking = breaking, scope = scope\<rparr>
              | None \<Rightarrow>
                  (let category = (case List.find (\<lambda>f. f \<in> set categoryOrder) FALLBACKS of
                                     Some f \<Rightarrow> f
                                   | None \<Rightarrow> (case categoryOrder of c # _ \<Rightarrow> c
                                               | [] \<Rightarrow> js ''Changes''))
                   in \<lparr>category = category, breaking = breaking, scope = scope\<rparr>)))"

section \<open>The bump (semver.ts)\<close>

datatype bump = Major | Minor | Patch | NoBump

definition MINOR_CATS :: "jstring list" where
  "MINOR_CATS = [js ''features'', js ''feature'', js ''enhancements'', js ''adds'', js ''new'']"

definition PATCH_CATS :: "jstring list" where
  "PATCH_CATS = [js ''fixes'', js ''fix'', js ''bug'', js ''bugs'', js ''docs'', js ''documentation'',
                 js ''refactor'', js ''tests'', js ''test'', js ''performance'', js ''perf'',
                 js ''chore'', js ''chores'', js ''misc'']"

text \<open>
  suggestBump takes a category name or a classification; a name stands for the
  classification with that category that is not breaking.
\<close>

definition suggestBump :: "jstring + categorizeResult \<Rightarrow> bump" where
  "suggestBump input =
     (let res = (case input of
                   Inl name \<Rightarrow> \<lparr>category = name, breaking = False, scope = None\<rparr>
                 | Inr r \<Rightarrow> r)
      in if breaking res then Major
         else (let key = norm (category res)
               in if key \<in> set MINOR_CATS then Minor
                  else if key \<in> set PATCH_CATS then Patch
                  else if includes_str key (js ''feature'') then Minor
                  else if includes_str key (js ''fix'') \<or> includes_str key (js ''bug'')
                          \<or> includes_str key (js ''docs'') \<or> includes_str key (js ''refactor'')
                          \<or> includes_str key (js ''perf'') \<or> includes_str key (js ''test'')
                          \<or> includes_str key (js ''chore'') \<or> includes_str key (js ''misc'')
                       then Patch
                  else NoBump))"

definition combineBumps :: "bump list \<Rightarrow> bump" where
  "combineBumps bumps =
     (if Major \<in> set bumps then Major
      else if Minor \<in> set bumps then Minor
      else if Patch \<in> set bumps then Patch
      else NoBump)"

section \<open>Concrete inputs\<close>

text \<open>The configuration that the README gives.\<close>

definition README_config :: config where
  "README_config =
     \<lparr>categories =
        [(js ''Features'', [js ''feature'', js ''feat'', js ''enhancement'']),
         (js ''Fixes'', [js ''fix'', js ''bug'']),
         (js ''Docs'', [js ''docs'']),
         (js ''Performance'', [js ''perf'']),
         (js ''Refactor'', [js ''refactor'']),
         (js ''Tests'', [js ''test'']),
         (js ''Chores'', [js ''chore''])],
      breakingLabels = Some [js ''breaking'', js ''breaking-change'', js ''major'']\<rparr>"

definition title_A :: jstring where
  "title_A = js ''fix: clamp invalid question number''"




text \<open>The entry of scenario A and two documents with a version section.\<close>

definition entry_A :: entry where
  "entry_A = \<lparr>entry_prNumber = 55, entry_title = title_A, entry_category = js ''Fixes'',
               entry_scope = None\<rparr>"



text \<open>The document that scenario A gives when the file does not exist yet.\<close>

definition doc_A :: jstring where
  "doc_A = js ''# Changelog\<newline>All notable changes to this project will be documented in this file.\<newline>\<newline>## [Unreleased]\<newline>### Fixes\<newline>- clamp invalid question number (#55)\<newline>\<newline>''"





section \<open>A declarative reading of the regular expressions\<close>

text \<open>
  \<open>sem fl r p m q\<close> says that the expression \<open>r\<close> can match the text \<open>m\<close> when \<open>p\<close> is
  the input before it and \<open>q\<close> the input after it.  It is used in proofs only: the
  matcher \<open>rmatch\<close> reaches exactly the states that it describes.
\<close>

primrec sem :: "flags \<Rightarrow> rx \<Rightarrow> jstring \<Rightarrow> jstring \<Rightarrow> jstring \<Rightarrow> bool" where
  "sem fl Eps p m q = (m = [])"
| "sem fl (Lit w) p m q = (map (canon fl) m = map (canon fl) w)"
| "sem fl (Rep P lo) p m q = (list_all P m \<and> lo \<le> length m)"
| "sem fl (Opt r) p m q = (sem fl r p m q \<or> m = [])"
| "sem fl (Seq r1 r2) p m q =
     (\<exists>m1 m2. m = m1 @ m2 \<and> sem fl r1 p m1 (m2 @ q) \<and> sem fl r2 (p @ m1) m2 q)"
| "sem fl Bol p m q = (m = [] \<and> (p = [] \<or> (multiline fl \<and> is_lt (last p))))"
| "sem fl Eol p m q = (m = [] \<and> (q = [] \<or> (multiline fl \<and> is_lt (hd q))))"
| "sem fl (Grp n r) p m q = sem fl r p m q"

section \<open>Evaluation\<close>

lemmas str_eval = js_def trim_def trimStart_def trimEnd_def is_space_def toLowerCase_def
  lower_cu_def norm_def startsWith_def

lemmas rx_eval = exec_def test_def canon_def adv_def is_word_def is_lt_def capture_def

lemmas label_eval = normalizeLabel_def alias_lookup_def COMMON_LABEL_ALIASES_def
  OBJECT_PROTOTYPE_KEYS_def strip_prefix_ws_def

section \<open>The matcher and the declarative reading\<close>

lemma take_le_takeWhile:
  "k \<le> length (takeWhile P xs) \<Longrightarrow> list_all P (take k xs)"
proof (induction xs arbitrary: k)
  case Nil
  then show ?case by simp
next
  case (Cons x xs)
  then show ?case by (cases k) (auto split: if_splits)
qed

lemma length_takeWhile_append_all:
  "list_all P m \<Longrightarrow> length m \<le> length (takeWhile P (m @ q))"
  by (induction m) auto

lemma set_rmatch_Rep:
  "set (rmatch fl (Rep P lo) st) = (\<lambda>k. adv k st) ` {lo .. length (takeWhile P (rest st))}"
  by (simp add: atLeastLessThanSuc_atLeastAtMost del: upt_Suc)

lemma rmatch_sem:
  "st' \<in> set (rmatch fl r st) \<Longrightarrow>
     \<exists>m. rest st = m @ rest st' \<and> pre st' = pre st @ m \<and> sem fl r (pre st) m (rest st')"
proof (induction r arbitrary: st st')
  case Eps
  then show ?case by simp
next
  case (Lit w)
  then have a: "length w \<le> length (rest st)"
      "map (canon fl) (take (length w) (rest st)) = map (canon fl) w"
      "st' = adv (length w) st"
    by (auto split: if_splits)
  show ?case
    by (rule exI [of _ "take (length w) (rest st)"]) (simp add: a adv_def)
next
  case (Rep P lo)
  then obtain k where k: "lo \<le> k" "k \<le> length (takeWhile P (rest st))" "st' = adv k st"
    unfolding set_rmatch_Rep by auto
  have "k \<le> length (rest st)"
    using k(2) length_takeWhile_le [of P "rest st"] by linarith
  then show ?case
    using k take_le_takeWhile [of k P "rest st"]
    by (intro exI [of _ "take k (rest st)"]) (simp add: adv_def)
next
  case (Opt r)
  then show ?case by auto
next
  case (Seq r1 r2)
  then obtain s1 where s1: "s1 \<in> set (rmatch fl r1 st)" "st' \<in> set (rmatch fl r2 s1)"
    by auto
  from Seq.IH(1) [OF s1(1)] obtain m1 where
    m1: "rest st = m1 @ rest s1" "pre s1 = pre st @ m1" "sem fl r1 (pre st) m1 (rest s1)"
    by blast
  from Seq.IH(2) [OF s1(2)] obtain m2 where
    m2: "rest s1 = m2 @ rest st'" "pre st' = pre s1 @ m2" "sem fl r2 (pre s1) m2 (rest st')"
    by blast
  show ?case
    using m1 m2 by (intro exI [of _ "m1 @ m2"]) auto
next
  case Bol
  then show ?case by (auto split: if_splits)
next
  case Eol
  then show ?case by (auto split: if_splits)
next
  case (Grp n r)
  then obtain s1 where "s1 \<in> set (rmatch fl r st)" "rest st' = rest s1" "pre st' = pre s1"
    by auto
  with Grp.IH [of s1 st] show ?case by auto
qed

lemma sem_rmatch:
  "sem fl r p m q \<Longrightarrow>
     \<exists>c'. \<lparr>pre = p @ m, rest = q, caps = c'\<rparr> \<in> set (rmatch fl r \<lparr>pre = p, rest = m @ q, caps = c\<rparr>)"
proof (induction r arbitrary: p m q c)
  case Eps
  then show ?case by simp
next
  case (Lit w)
  then have e: "map (canon fl) m = map (canon fl) w" by simp
  then have "length m = length w"
    by (rule map_eq_imp_length_eq)
  with e show ?case by (simp add: adv_def)
next
  case (Rep P lo)
  then have "length m \<le> length (takeWhile P (m @ q))"
    using length_takeWhile_append_all by auto
  with Rep have "length m \<in> {lo .. length (takeWhile P (m @ q))}"
    by auto
  then have "adv (length m) \<lparr>pre = p, rest = m @ q, caps = c\<rparr>
      \<in> set (rmatch fl (Rep P lo) \<lparr>pre = p, rest = m @ q, caps = c\<rparr>)"
    unfolding set_rmatch_Rep by (intro image_eqI [of _ _ "length m"]) simp_all
  then show ?case by (auto simp: adv_def)
next
  case (Opt r)
  then show ?case by fastforce
next
  case (Seq r1 r2)
  then obtain m1 m2 where m: "m = m1 @ m2" "sem fl r1 p m1 (m2 @ q)" "sem fl r2 (p @ m1) m2 q"
    by auto
  from Seq.IH(1) [OF m(2), of c] obtain c1 where
    c1: "\<lparr>pre = p @ m1, rest = m2 @ q, caps = c1\<rparr> \<in> set (rmatch fl r1 \<lparr>pre = p, rest = m1 @ m2 @ q, caps = c\<rparr>)"
    by auto
  from Seq.IH(2) [OF m(3), of c1] obtain c2 where
    c2: "\<lparr>pre = p @ m1 @ m2, rest = q, caps = c2\<rparr> \<in> set (rmatch fl r2 \<lparr>pre = p @ m1, rest = m2 @ q, caps = c1\<rparr>)"
    by auto
  show ?case using c1 c2 m(1) by auto
next
  case Bol
  then show ?case by auto
next
  case Eol
  then show ?case by auto
next
  case (Grp n r)
  from Grp.IH [OF Grp.prems [simplified], of c] obtain c' where
    "\<lparr>pre = p @ m, rest = q, caps = c'\<rparr> \<in> set (rmatch fl r \<lparr>pre = p, rest = m @ q, caps = c\<rparr>)"
    by auto
  then show ?case by (force simp: image_iff)
qed

lemma exec_from_None:
  "exec_from fl r p s = None \<longleftrightarrow>
     (\<forall>a b. s = a @ b \<longrightarrow> rmatch fl r \<lparr>pre = p @ a, rest = b, caps = []\<rparr> = [])"
proof (induction s arbitrary: p)
  case Nil
  then show ?case by (auto split: list.splits)
next
  case (Cons c s)
  show ?case
  proof (cases "rmatch fl r \<lparr>pre = p, rest = c # s, caps = []\<rparr>")
    case Nil
    have "(\<forall>a b. c # s = a @ b \<longrightarrow> rmatch fl r \<lparr>pre = p @ a, rest = b, caps = []\<rparr> = [])
       \<longleftrightarrow> (\<forall>a b. s = a @ b \<longrightarrow> rmatch fl r \<lparr>pre = (p @ [c]) @ a, rest = b, caps = []\<rparr> = [])"
      using Nil by (auto simp: Cons_eq_append_conv)
    then show ?thesis using Nil Cons.IH [of "p @ [c]"] by simp
  next
    case (Cons m ms)
    then show ?thesis by (auto intro: exI [of _ "[]"])
  qed
qed

lemma test_iff_sem:
  "test fl r s \<longleftrightarrow> (\<exists>p m q. s = p @ m @ q \<and> sem fl r p m q)"
proof
  assume "test fl r s"
  then obtain a b where ab: "s = a @ b" "rmatch fl r \<lparr>pre = a, rest = b, caps = []\<rparr> \<noteq> []"
    by (auto simp: test_def exec_def exec_from_None)
  then obtain st' where "st' \<in> set (rmatch fl r \<lparr>pre = a, rest = b, caps = []\<rparr>)"
    by (cases "rmatch fl r \<lparr>pre = a, rest = b, caps = []\<rparr>") auto
  from rmatch_sem [OF this] ab(1) show "\<exists>p m q. s = p @ m @ q \<and> sem fl r p m q"
    by auto
next
  assume "\<exists>p m q. s = p @ m @ q \<and> sem fl r p m q"
  then obtain p m q where pmq: "s = p @ m @ q" "sem fl r p m q" by blast
  from sem_rmatch [OF pmq(2), of "[]"] have "rmatch fl r \<lparr>pre = p, rest = m @ q, caps = []\<rparr> \<noteq> []"
    by auto
  with pmq(1) show "test fl r s"
    by (auto simp: test_def exec_def exec_from_None)
qed

section \<open>Classification and bump\<close>

lemma breaking_categorize:
  "breaking (categorize title labels cfg)
     = (cc_bang title \<or> label_breaks cfg labels \<or> title_breaks title)"
  by (auto simp: categorize_def Let_def split: option.splits)

lemma label_breaks_README: "label_breaks README_config [js ''breaking'']"
  by (simp add: label_breaks_def README_config_def label_eval str_eval)

lemma find_README:
  "List.find (label_matches README_config (map normalizeLabel [js ''breaking'']))
     (map fst (categories README_config)) = None"
  by (simp add: README_config_def label_matches_def aliases_of_def label_eval str_eval)

lemma cc_type_A: "cc_type title_A = Some (js ''fix'')"
  by (simp add: cc_type_def title_A_def CC_RE_def flags_i_def rx_eval str_eval)

lemma alias_fix_README: "aliasToCategory README_config (js ''fix'') = Some (js ''Fixes'')"
  by (simp add: aliasToCategory_def README_config_def aliases_of_def str_eval)

lemma category_E: "category (categorize title_A [js ''breaking''] README_config) = js ''Fixes''"
  unfolding categorize_def Let_def find_README cc_type_A
  by (simp add: alias_fix_README)

text \<open>
  C8.  A classification that is breaking gets the bump major, whatever its category.
  The witness is the classification of the title
  \<^verbatim>\<open>fix: clamp invalid question number\<close> with the label \<^verbatim>\<open>breaking\<close> under the
  configuration of the README: its category is Fixes, which alone would give patch,
  and its bump is major.
\<close>

theorem suggestBump_breaking:
  "breaking r \<Longrightarrow> suggestBump (Inr r) = Major"
  by (simp add: suggestBump_def)

theorem suggestBump_breaking_witness:
  "category (categorize title_A [js ''breaking''] README_config) = js ''Fixes''
   \<and> breaking (categorize title_A [js ''breaking''] README_config)
   \<and> suggestBump (Inr (categorize title_A [js ''breaking''] README_config)) = Major
   \<and> suggestBump (Inl (js ''Fixes'')) = Patch"
proof -
  have b: "breaking (categorize title_A [js ''breaking''] README_config)"
    by (simp add: breaking_categorize label_breaks_README)
  have p: "suggestBump (Inl (js ''Fixes'')) = Patch"
    by (simp add: suggestBump_def MINOR_CATS_def PATCH_CATS_def str_eval)
  show ?thesis
    using suggestBump_breaking [OF b] b category_E p by simp
qed










section \<open>The version of a release\<close>

text \<open>
  C9, as stated, fails: the tag \<^verbatim>\<open>v\<close> is not empty, and stripping its leading
  \<^verbatim>\<open>v\<close> leaves the empty string, yet the version is 0.0.0.
\<close>

theorem version_of_tag_counterexample:
  "js ''v'' \<noteq> [] \<and> strip_v (js ''v'') = []
   \<and> version_of_tag (Some (js ''v'')) = js ''0.0.0''
   \<and> version_of_tag (Some (js ''v'')) \<noteq> strip_v (js ''v'')"
  by (simp add: version_of_tag_def strip_v_def js_def)

text \<open>
  C9, amended.  The version is 0.0.0 when the tag is missing, empty, or nothing is left
  of it once one leading \<^verbatim>\<open>v\<close> or \<^verbatim>\<open>V\<close> is stripped (the tag is \<^verbatim>\<open>v\<close> or \<^verbatim>\<open>V\<close>);
  otherwise it is the tag without exactly one leading \<^verbatim>\<open>v\<close> or \<^verbatim>\<open>V\<close>.  The header
  of the new section holds that version between brackets, an en dash and the date.
\<close>

theorem version_of_tag_cases:
  "version_of_tag None = js ''0.0.0''
   \<and> version_of_tag (Some []) = js ''0.0.0''
   \<and> (strip_v tag = [] \<longrightarrow> version_of_tag (Some tag) = js ''0.0.0'')
   \<and> (strip_v tag \<noteq> [] \<longrightarrow> version_of_tag (Some tag) = strip_v tag)
   \<and> (strip_v tag = [] \<longleftrightarrow> tag = [] \<or> tag = js ''v'' \<or> tag = js ''V'')
   \<and> (c = 118 \<or> c = 86 \<longrightarrow> strip_v (c # s) = s)
   \<and> (c \<noteq> 118 \<and> c \<noteq> 86 \<longrightarrow> strip_v (c # s) = c # s)
   \<and> versionHeader (version_of_tag (Some tag)) dateStr
       = js ''## ['' @ version_of_tag (Some tag) @ js ''] '' @ [8211] @ js '' '' @ dateStr @ js ''\<newline>''"
  by (auto simp: version_of_tag_def strip_v_def versionHeader_def js_def Let_def
      split: list.splits)

theorem version_of_tag_cases_witness:
  "version_of_tag (Some (js ''v0.1.0'')) = js ''0.1.0''
   \<and> version_of_tag (Some (js ''V'')) = js ''0.0.0''
   \<and> version_of_tag (Some (js ''vv1'')) = js ''v1''
   \<and> version_of_tag (Some (js ''1.2.3'')) = js ''1.2.3''
   \<and> versionHeader (version_of_tag (Some (js ''v0.1.0''))) (js ''2024-01-01'')
       = js ''## [0.1.0] '' @ [8211] @ js '' 2024-01-01\<newline>''"
  using version_of_tag_cases [of "js ''v0.1.0''" 118 "js ''0.1.0''" "js ''2024-01-01''"]
    version_of_tag_cases [of "js ''V''" 86 "[]" "[]"]
    version_of_tag_cases [of "js ''vv1''" 118 "js ''v1''" "[]"]
    version_of_tag_cases [of "js ''1.2.3''" 49 "js ''.2.3''" "[]"]
  by (auto simp: js_def strip_v_def)

section \<open>Bullets\<close>

lemma normalizeTitle_A: "normalizeTitleForBullet title_A = js ''clamp invalid question number''"
  by (simp add: normalizeTitleForBullet_def title_A_def BULLET_RE_def flags_none_def rx_eval str_eval)

lemma formatBullet_A: "formatBullet title_A 55 None = js ''- clamp invalid question number (#55)''"
  by (simp add: formatBullet_def normalizeTitle_A show_nat.simps [of 55] show_nat.simps [of 5])
    (simp add: js_def)

lemma insert_A:
  "insertIntoUnreleasedCategory [] (js ''Fixes'') (formatBullet title_A 55 None)
     = js ''### Fixes\<newline>- clamp invalid question number (#55)\<newline>''"
  unfolding formatBullet_A
  by (simp add: insertIntoUnreleasedCategory_def catHeader_def first_index_def str_eval)

text \<open>
  C7, as stated, fails: the body does not hold the capitalised
  \<^verbatim>\<open>Clamp invalid question number\<close>.
\<close>

theorem scenario_A_counterexample:
  "insertIntoUnreleasedCategory [] (js ''Fixes'') (formatBullet title_A 55 None)
     \<noteq> js ''### Fixes\<newline>- Clamp invalid question number (#55)\<newline>''"
  unfolding insert_A by (simp add: js_def)

text \<open>
  C7, amended.  Inserting the entry with the title
  \<^verbatim>\<open>fix: clamp invalid question number\<close>, the category Fixes and the number 55 into
  an empty staging body gives the header of the category and the bullet
  \<^verbatim>\<open>- clamp invalid question number (#55)\<close>, each followed by a line feed: the grammar
  prefix of the title is stripped and the rest is kept as it is written.  A bullet is
  a dash, the scope between brackets when there is a non-empty one, the normalized
  title and the number between parentheses.
\<close>

theorem scenario_A:
  "insertIntoUnreleasedCategory [] (js ''Fixes'') (formatBullet title_A 55 None)
     = js ''### Fixes\<newline>- clamp invalid question number (#55)\<newline>''
   \<and> normalizeTitleForBullet title_A = js ''clamp invalid question number''
   \<and> formatBullet t n None = js ''- '' @ normalizeTitleForBullet t @ js '' (#'' @ show_nat n @ js '')''
   \<and> formatBullet t n (Some []) = formatBullet t n None
   \<and> (s \<noteq> [] \<longrightarrow> formatBullet t n (Some s)
         = js ''- ['' @ s @ js ''] '' @ normalizeTitleForBullet t @ js '' (#'' @ show_nat n @ js '')'')"
  by (simp add: insert_A normalizeTitle_A) (simp add: formatBullet_def js_def)

lemma normalizeTitle_scoped:
  "normalizeTitleForBullet (js ''feat(core)!: add export'') = js ''add export''"
  by (simp add: normalizeTitleForBullet_def BULLET_RE_def flags_none_def rx_eval str_eval)

theorem scenario_A_witness:
  "js ''core'' \<noteq> []
   \<and> formatBullet (js ''feat(core)!: add export'') 7 (Some (js ''core''))
       = js ''- [core] add export (#7)''"
  using scenario_A [of "js ''feat(core)!: add export''" 7 "js ''core''"]
  by (simp add: normalizeTitle_scoped show_nat.simps [of 7]) (simp add: js_def)

section \<open>Normalization\<close>

lemma canon_flags [simp]:
  "canon flags_im = lower_cu" "canon flags_i = lower_cu" "canon flags_none = (\<lambda>c. c)"
  by (simp_all add: fun_eq_iff canon_def flags_im_def flags_i_def flags_none_def)

lemma multiline_flags [simp]:
  "multiline flags_im" "\<not> multiline flags_i" "\<not> multiline flags_none"
  by (simp_all add: flags_im_def flags_i_def flags_none_def)

lemma sem_TITLE:
  "sem flags_im TITLE_RE p m q \<longleftrightarrow>
     (p = [] \<or> is_lt (last p))
     \<and> (\<exists>h ws w. m = h @ ws @ w \<and> map lower_cu h = map lower_cu (js ''#'')
           \<and> list_all is_space ws \<and> map lower_cu w = map lower_cu (js ''Changelog''))"
  by (auto simp: TITLE_RE_def)

lemma ci_hash: "map lower_cu h = map lower_cu (js ''#'') \<longleftrightarrow> h = [35]"
proof
  assume "map lower_cu h = map lower_cu (js ''#'')"
  then show "h = [35]"
    by (auto simp: js_def lower_cu_def map_eq_Cons_conv split: if_splits)
next
  assume "h = [35]"
  then show "map lower_cu h = map lower_cu (js ''#'')"
    by (simp add: js_def)
qed

lemma ci_Changelog:
  assumes "map lower_cu w = map lower_cu (js ''Changelog'')"
  shows "w \<noteq> []" and "c \<in> set w \<Longrightarrow> 65 \<le> c"
proof -
  show "w \<noteq> []" using assms by (auto simp: js_def)
  assume "c \<in> set w"
  then have "lower_cu c \<in> set (map lower_cu w)" by simp
  then have "lower_cu c \<in> set (map lower_cu (js ''Changelog''))"
    using assms by simp
  then show "65 \<le> c"
    by (auto simp: js_def lower_cu_def split: if_splits)
qed

lemma test_TITLE:
  "test flags_im TITLE_RE s \<longleftrightarrow>
     (\<exists>p ws w q. s = p @ 35 # ws @ w @ q \<and> (p = [] \<or> is_lt (last p))
        \<and> list_all is_space ws \<and> map lower_cu w = map lower_cu (js ''Changelog''))"
proof
  assume "test flags_im TITLE_RE s"
  then obtain p m q ws w where "s = p @ m @ q" "p = [] \<or> is_lt (last p)" "m = [35] @ ws @ w"
    "list_all is_space ws" "map lower_cu w = map lower_cu (js ''Changelog'')"
    unfolding test_iff_sem sem_TITLE ci_hash by blast
  then show "\<exists>p ws w q. s = p @ 35 # ws @ w @ q \<and> (p = [] \<or> is_lt (last p))
        \<and> list_all is_space ws \<and> map lower_cu w = map lower_cu (js ''Changelog'')"
    by (intro exI [of _ p] exI [of _ ws] exI [of _ w] exI [of _ q]) simp
next
  assume "\<exists>p ws w q. s = p @ 35 # ws @ w @ q \<and> (p = [] \<or> is_lt (last p))
        \<and> list_all is_space ws \<and> map lower_cu w = map lower_cu (js ''Changelog'')"
  then obtain p ws w q where a: "s = p @ 35 # ws @ w @ q" "p = [] \<or> is_lt (last p)"
    "list_all is_space ws" "map lower_cu w = map lower_cu (js ''Changelog'')"
    by blast
  have "sem flags_im TITLE_RE p ([35] @ ws @ w) q"
    unfolding sem_TITLE ci_hash using a by blast
  moreover have "s = p @ ([35] @ ws @ w) @ q" using a by simp
  ultimately show "test flags_im TITLE_RE s"
    unfolding test_iff_sem by blast
qed

lemma test_TITLE_HEADER: "test flags_im TITLE_RE (HEADER @ x)"
  unfolding test_TITLE
  by (rule exI [of _ "[]"], rule exI [of _ "js '' ''"], rule exI [of _ "js ''Changelog''"])
    (simp add: HEADER_def js_def is_space_def)

text \<open>A line feed inside a match of the title is followed by something else than a hash.\<close>

lemma title_match_split:
  assumes "35 # ws @ w = a @ 10 # b" and "list_all is_space ws"
    and "map lower_cu w = map lower_cu (js ''Changelog'')"
  shows "b \<noteq> [] \<and> hd b \<noteq> 35"
proof -
  from assms(1) obtain a' where a: "a = 35 # a'" "ws @ w = a' @ 10 # b"
    by (cases a) auto
  have w10: "10 \<notin> set w" using ci_Changelog(2) [OF assms(3), of 10] by auto
  from a(2) obtain z where "(ws = a' @ z \<and> z @ w = 10 # b) \<or> (ws @ z = a' \<and> w = z @ 10 # b)"
    by (auto simp: append_eq_append_conv2)
  then have z: "ws = a' @ z" "z @ w = 10 # b" using w10 by auto
  then obtain z' where z': "z = 10 # z'" "b = z' @ w"
    using w10 by (cases z) auto
  show ?thesis
  proof (cases z')
    case Nil
    then show ?thesis
      using z' ci_Changelog(1) [OF assms(3)] ci_Changelog(2) [OF assms(3), of 35]
      by (cases w) auto
  next
    case (Cons y ys)
    then have "is_space y" using z z' assms(2) by auto
    then show ?thesis using z' Cons by (auto simp: is_space_def)
  qed
qed

lemma test_TITLE_insert:
  assumes "test flags_im TITLE_RE (u @ 10 # 35 # v)"
  shows "test flags_im TITLE_RE (u @ ins @ 10 # 35 # v)"
proof -
  from assms obtain p ws w q where
    s: "u @ 10 # 35 # v = p @ 35 # ws @ w @ q" and bol: "p = [] \<or> is_lt (last p)"
    and ws: "list_all is_space ws" and w: "map lower_cu w = map lower_cu (js ''Changelog'')"
    unfolding test_TITLE by blast
  let ?m = "35 # ws @ w"
  from s have "u @ (10 # 35 # v) = p @ (?m @ q)" by simp
  then obtain x where "(u = p @ x \<and> x @ 10 # 35 # v = ?m @ q) \<or> (u @ x = p \<and> 10 # 35 # v = x @ ?m @ q)"
    unfolding append_eq_append_conv2 by blast
  then show ?thesis
  proof
    assume c: "u = p @ x \<and> x @ 10 # 35 # v = ?m @ q"
    then obtain y where "(x = ?m @ y \<and> y @ 10 # 35 # v = q) \<or> (x @ y = ?m \<and> 10 # 35 # v = y @ q)"
      unfolding append_eq_append_conv2 by blast
    then show ?thesis
    proof
      assume "x = ?m @ y \<and> y @ 10 # 35 # v = q"
      then have "u @ ins @ 10 # 35 # v = p @ 35 # ws @ w @ (y @ ins @ 10 # 35 # v)"
        using c by simp
      then show ?thesis unfolding test_TITLE using bol ws w by blast
    next
      assume d: "x @ y = ?m \<and> 10 # 35 # v = y @ q"
      show ?thesis
      proof (cases y)
        case Nil
        then have "u @ ins @ 10 # 35 # v = p @ 35 # ws @ w @ (ins @ 10 # 35 # v)"
          using c d by simp
        then show ?thesis unfolding test_TITLE using bol ws w by blast
      next
        case (Cons y1 ys)
        then have y1: "y1 = 10" using d by simp
        have "?m = x @ 10 # ys" using d Cons y1 by simp
        from title_match_split [OF this ws w] have "ys \<noteq> [] \<and> hd ys \<noteq> 35" .
        moreover have "ys @ q = 35 # v" using d Cons by simp
        ultimately show ?thesis by (cases ys) auto
      qed
    qed
  next
    assume c: "u @ x = p \<and> 10 # 35 # v = x @ ?m @ q"
    then have "x \<noteq> []" by (cases x) auto
    then have "last (u @ ins @ x) = last p" "u @ ins @ x \<noteq> []"
      using c by auto
    moreover have "p \<noteq> []" using c \<open>x \<noteq> []\<close> by auto
    ultimately have "is_lt (last (u @ ins @ x))" using bol by simp
    moreover have "u @ ins @ 10 # 35 # v = (u @ ins @ x) @ 35 # ws @ w @ q"
      using c by simp
    ultimately show ?thesis unfolding test_TITLE using ws w by blast
  qed
qed

lemma test_TITLE_append:
  assumes "test flags_im TITLE_RE s"
  shows "test flags_im TITLE_RE (s @ t)"
proof -
  from assms obtain p ws w q where
    s: "s = p @ 35 # ws @ w @ q" and r: "p = [] \<or> is_lt (last p)" "list_all is_space ws"
      "map lower_cu w = map lower_cu (js ''Changelog'')"
    unfolding test_TITLE by blast
  from s have "s @ t = p @ 35 # ws @ w @ (q @ t)" by simp
  with r show ?thesis unfolding test_TITLE by blast
qed


lemma sem_SeqI:
  "sem fl r1 p m1 (m2 @ q) \<Longrightarrow> sem fl r2 (p @ m1) m2 q \<Longrightarrow> sem fl (Seq r1 r2) p (m1 @ m2) q"
  by auto

lemma sem_UNRELEASED_bracketed:
  assumes "p = [] \<or> is_lt (last p)" and "q = [] \<or> is_lt (hd q)"
  shows "sem flags_im UNRELEASED_HEADER_RE p
           ([] @ js ''##'' @ js '' '' @ js ''['' @ [] @ js ''Unreleased'' @ [] @ js '']'' @ [] @ []) q"
  unfolding UNRELEASED_HEADER_RE_def seqs.simps
  using assms by (intro sem_SeqI) (simp_all add: js_def is_space_def lower_cu_def)

lemma test_UNRELEASED_insert:
  "test flags_im UNRELEASED_HEADER_RE (u @ UNRELEASED_INSERT @ v)"
proof -
  have "sem flags_im UNRELEASED_HEADER_RE (u @ [10])
           ([] @ js ''##'' @ js '' '' @ js ''['' @ [] @ js ''Unreleased'' @ [] @ js '']'' @ [] @ [])
           (10 # 10 # v)"
    by (rule sem_UNRELEASED_bracketed) (simp_all add: is_lt_def)
  moreover have "u @ UNRELEASED_INSERT @ v = (u @ [10])
      @ ([] @ js ''##'' @ js '' '' @ js ''['' @ [] @ js ''Unreleased'' @ [] @ js '']'' @ [] @ [])
      @ (10 # 10 # v)"
    by (simp add: UNRELEASED_INSERT_def js_def)
  ultimately show ?thesis unfolding test_iff_sem by blast
qed

lemma HEADER_split:
  "HEADER = js ''# Changelog\<newline>All notable changes to this project will be documented in this file.\<newline>''
     @ UNRELEASED_INSERT"
  by (simp add: HEADER_def UNRELEASED_INSERT_def js_def)

lemma test_UNRELEASED_HEADER: "test flags_im UNRELEASED_HEADER_RE (HEADER @ x)"
  unfolding HEADER_split append_assoc by (rule test_UNRELEASED_insert)

lemma indexOf_Some:
  "indexOf s pat = Some i \<Longrightarrow> i \<le> length s \<and> startsWith (drop i s) pat"
proof (induction s arbitrary: i)
  case Nil
  then show ?case by (auto simp: startsWith_def split: if_splits)
next
  case (Cons c s)
  then show ?case by (cases "startsWith (c # s) pat") auto
qed

lemma ensure_has_title: "test flags_im TITLE_RE (ensureHeaderAndUnreleased x)"
proof -
  define t where "t = (if \<not> test flags_im TITLE_RE x then HEADER @ x else x)"
  have t: "test flags_im TITLE_RE t"
    unfolding t_def using test_TITLE_HEADER by simp
  show ?thesis
  proof (cases "test flags_im UNRELEASED_HEADER_RE t")
    case True
    then show ?thesis using t by (simp add: ensureHeaderAndUnreleased_def t_def Let_def)
  next
    case False
    show ?thesis
    proof (cases "indexOf t (js ''\<newline>## '')")
      case None
      then have "ensureHeaderAndUnreleased x = t @ UNRELEASED_INSERT"
        using False by (simp add: ensureHeaderAndUnreleased_def t_def Let_def)
      then show ?thesis using test_TITLE_append [OF t] by simp
    next
      case (Some idx)
      then have e: "ensureHeaderAndUnreleased x = take idx t @ UNRELEASED_INSERT @ drop idx t"
        using False by (simp add: ensureHeaderAndUnreleased_def t_def Let_def)
      from indexOf_Some [OF Some] obtain v where v: "drop idx t = 10 # 35 # v"
        by (cases "drop idx t" rule: list.exhaust; cases "tl (drop idx t)")
          (auto simp: startsWith_def js_def)
      have "t = take idx t @ 10 # 35 # v" using v by (metis append_take_drop_id)
      with t have "test flags_im TITLE_RE (take idx t @ 10 # 35 # v)" by simp
      from test_TITLE_insert [OF this] show ?thesis using e v by simp
    qed
  qed
qed

lemma ensure_has_unreleased: "test flags_im UNRELEASED_HEADER_RE (ensureHeaderAndUnreleased x)"
proof -
  define t where "t = (if \<not> test flags_im TITLE_RE x then HEADER @ x else x)"
  have e: "ensureHeaderAndUnreleased x =
      (if \<not> test flags_im UNRELEASED_HEADER_RE t
       then (case indexOf t (js ''\<newline>## '') of
               Some idx \<Rightarrow> take idx t @ UNRELEASED_INSERT @ drop idx t
             | None \<Rightarrow> t @ UNRELEASED_INSERT)
       else t)"
    by (simp only: ensureHeaderAndUnreleased_def t_def Let_def)
  show ?thesis
  proof (cases "test flags_im UNRELEASED_HEADER_RE t")
    case True
    then show ?thesis by (simp add: e)
  next
    case False
    show ?thesis
    proof (cases "indexOf t (js ''\<newline>## '')")
      case None
      then show ?thesis
        using False test_UNRELEASED_insert [of t "[]"] by (simp add: e)
    next
      case (Some idx)
      then show ?thesis
        using False test_UNRELEASED_insert [of "take idx t" "drop idx t"] by (simp add: e)
    qed
  qed
qed

lemma ensure_fixpoint:
  "test flags_im TITLE_RE t \<Longrightarrow> test flags_im UNRELEASED_HEADER_RE t \<Longrightarrow>
     ensureHeaderAndUnreleased t = t"
  by (simp add: ensureHeaderAndUnreleased_def)

text \<open>
  C1.  Normalizing twice gives the same text as normalizing once, for every input.
\<close>

theorem normalize_idempotent:
  "ensureHeaderAndUnreleased (ensureHeaderAndUnreleased x) = ensureHeaderAndUnreleased x"
  by (rule ensure_fixpoint) (rule ensure_has_title, rule ensure_has_unreleased)

lemma test_TITLE_empty: "\<not> test flags_im TITLE_RE []"
  by (simp add: TITLE_RE_def flags_im_def rx_eval js_def)

lemma ensure_empty: "ensureHeaderAndUnreleased [] = HEADER"
  using test_UNRELEASED_HEADER [of "[]"]
  by (simp add: ensureHeaderAndUnreleased_def test_TITLE_empty)

lemma test_TITLE_notes: "\<not> test flags_im TITLE_RE (js ''notes'')"
  by (simp add: TITLE_RE_def flags_im_def rx_eval js_def)

lemma test_upper: 
  "test flags_im TITLE_RE (js ''# CHANGELOG\<newline>## UNRELEASED\<newline>'')"
  "test flags_im UNRELEASED_HEADER_RE (js ''# CHANGELOG\<newline>## UNRELEASED\<newline>'')"
  by (simp_all add: TITLE_RE_def UNRELEASED_HEADER_RE_def flags_im_def rx_eval js_def is_space_def lower_cu_def)

theorem normalize_idempotent_witness:
  "ensureHeaderAndUnreleased (ensureHeaderAndUnreleased []) = HEADER
   \<and> ensureHeaderAndUnreleased (ensureHeaderAndUnreleased (js ''notes'')) = HEADER @ js ''notes''
   \<and> ensureHeaderAndUnreleased (ensureHeaderAndUnreleased (js ''# CHANGELOG\<newline>## UNRELEASED\<newline>''))
       = js ''# CHANGELOG\<newline>## UNRELEASED\<newline>''"
  using normalize_idempotent [of "[]"] normalize_idempotent [of "js ''notes''"]
    normalize_idempotent [of "js ''# CHANGELOG\<newline>## UNRELEASED\<newline>''"]
    test_UNRELEASED_HEADER [of "js ''notes''"]
  by (simp add: ensure_empty ensureHeaderAndUnreleased_def [of "js ''notes''"] test_TITLE_notes
      ensure_fixpoint [OF test_upper])






section \<open>Titles without a subject\<close>

lemma canon_colon: "canon fl x = canon fl 58 \<longleftrightarrow> x = 58"
  by (auto simp: canon_def lower_cu_def split: if_splits)

lemma sem_colon_tail:
  assumes "sem fl (seqs [Lit (js '':''), Rep is_space 0, Grp n (Rep P 1), Eol]) p m q"
  shows "\<exists>a b. m = a @ 58 # b \<and> b \<noteq> []"
proof -
  from assms obtain m1 m2 m3 where "m = m1 @ m2 @ m3" "map (canon fl) m1 = map (canon fl) (js '':'')"
    "1 \<le> length m3"
    by auto
  then have "m = [] @ 58 # (m2 @ m3)" "m2 @ m3 \<noteq> []"
    by (auto simp: js_def map_eq_Cons_conv canon_colon)
  then show ?thesis by blast
qed

lemma sem_Seq_tail:
  assumes "sem fl (Seq r1 r2) p m q"
    and "\<And>p' m'. sem fl r2 p' m' q \<Longrightarrow> \<exists>a b. m' = a @ 58 # b \<and> b \<noteq> []"
  shows "\<exists>a b. m = a @ 58 # b \<and> b \<noteq> []"
proof -
  from assms(1) obtain m1 m2 where m: "m = m1 @ m2" "sem fl r2 (p @ m1) m2 q" by auto
  from assms(2) [OF m(2)] obtain a b where "m2 = a @ 58 # b" "b \<noteq> []" by blast
  with m(1) have "m = (m1 @ a) @ 58 # b" by simp
  with \<open>b \<noteq> []\<close> show ?thesis by blast
qed

lemma sem_BULLET_colon:
  "sem flags_none BULLET_RE p m q \<Longrightarrow> \<exists>a b. m = a @ 58 # b \<and> b \<noteq> []"
  unfolding BULLET_RE_def seqs.simps
  apply (erule sem_Seq_tail)
  apply (erule sem_Seq_tail)
  apply (erule sem_Seq_tail)
  apply (erule sem_Seq_tail)
  apply (erule sem_colon_tail [unfolded seqs.simps])
  done

lemma sem_CC_colon:
  "sem flags_i CC_RE p m q \<Longrightarrow> \<exists>a b. m = a @ 58 # b \<and> b \<noteq> []"
  unfolding CC_RE_def seqs.simps
  apply (erule sem_Seq_tail)
  apply (erule sem_Seq_tail)
  apply (erule sem_Seq_tail)
  apply (erule sem_Seq_tail)
  apply (erule sem_colon_tail [unfolded seqs.simps])
  done

lemma final_colon_no_tail:
  assumes "58 \<notin> set g" and "g @ [58] = x @ 58 # b"
  shows "b = []"
proof (cases b rule: rev_cases)
  case Nil
  then show ?thesis .
next
  case (snoc ys y)
  with assms(2) have "g @ [58] = (x @ 58 # ys) @ [y]" by simp
  then have "g = x @ 58 # ys" by (simp only: append1_eq_conv)
  with assms(1) show ?thesis by simp
qed

lemma exec_None_test: "exec fl r s = None \<longleftrightarrow> \<not> test fl r s"
  by (simp add: test_def)

lemma no_colon_tail_no_test:
  assumes "58 \<notin> set g"
    and "\<And>p m q. sem fl r p m q \<Longrightarrow> \<exists>a b. m = a @ 58 # b \<and> b \<noteq> []"
  shows "exec fl r (g @ [58]) = None"
  unfolding exec_None_test test_iff_sem
proof (rule notI, elim exE conjE)
  fix p m q
  assume s: "g @ [58] = p @ m @ q" and "sem fl r p m q"
  from assms(2) [OF this(2)] obtain a b where m: "m = a @ 58 # b" "b \<noteq> []" by blast
  from s m(1) have "g @ [58] = (p @ a) @ 58 # (b @ q)" by simp
  from final_colon_no_tail [OF assms(1) this] m(2) show False by simp
qed

lemma no_subject_BULLET: "58 \<notin> set g \<Longrightarrow> exec flags_none BULLET_RE (g @ [58]) = None"
  by (erule no_colon_tail_no_test) (rule sem_BULLET_colon)

lemma no_subject_CC: "58 \<notin> set g \<Longrightarrow> exec flags_i CC_RE (g @ [58]) = None"
  by (erule no_colon_tail_no_test) (rule sem_CC_colon)

lemma trimEnd_spaces:
  "list_all is_space ws \<Longrightarrow> \<not> is_space c \<Longrightarrow> trimEnd (g @ c # ws) = g @ [c]"
proof -
  assume a: "list_all is_space ws" "\<not> is_space c"
  have "dropWhile is_space (rev ws @ c # rev g) = dropWhile is_space (c # rev g)"
    using a(1) by (intro dropWhile_append2) (simp add: list_all_iff)
  then show ?thesis using a(2) by (simp add: trimEnd_def)
qed

lemma trim_colon:
  assumes "list_all is_space ws"
  shows "trim (g @ js '':'' @ ws) = trimStart g @ js '':''"
proof -
  have "\<not> is_space 58" by (simp add: is_space_def)
  then have "trimEnd (g @ 58 # ws) = g @ [58]"
    using assms by (rule trimEnd_spaces [rotated])
  moreover have "dropWhile is_space (g @ [58]) = dropWhile is_space g @ [58]"
    using \<open>\<not> is_space 58\<close> by (induction g) auto
  ultimately show ?thesis by (simp add: trim_def trimStart_def js_def)
qed

text \<open>
  C10, as stated, fails: classification parses the title as it is, so when blanks
  follow the colon the last blank is taken as the subject; from
  \<^verbatim>\<open>feat(core)!: \<close> it extracts the type, the scope and the bang.
\<close>

theorem empty_subject_counterexample:
  "cc_type (js ''feat(core)!: '') = Some (js ''feat'')
   \<and> cc_scope (js ''feat(core)!: '') = Some (js ''core'')
   \<and> cc_bang (js ''feat(core)!: '')
   \<and> breaking (categorize (js ''feat(core)!: '') [] README_config)"
proof -
  have "cc_bang (js ''feat(core)!: '')"
    by (simp add: cc_bang_def CC_RE_def flags_i_def rx_eval str_eval)
  moreover have "cc_type (js ''feat(core)!: '') = Some (js ''feat'')"
    by (simp add: cc_type_def CC_RE_def flags_i_def rx_eval str_eval)
  moreover have "cc_scope (js ''feat(core)!: '') = Some (js ''core'')"
    by (simp add: cc_scope_def CC_RE_def flags_i_def rx_eval str_eval)
  ultimately show ?thesis by (simp add: breaking_categorize)
qed

text \<open>
  C10, amended.  A title whose only colon is followed by nothing but white space (so
  \<^verbatim>\<open>fix:\<close> and \<^verbatim>\<open>feat(core)!:\<close>, with or without white space after them) does
  not match the grammar of the bullet, which is applied to the trimmed title: the
  bullet uses the whole trimmed title.  When nothing at all follows the colon, the
  title does not match the grammar of the classification either, which extracts no
  type, no scope and no bang.
\<close>

theorem empty_subject:
  assumes "58 \<notin> set g" and "list_all is_space ws"
  shows "normalizeTitleForBullet (g @ js '':'' @ ws) = trim (g @ js '':'' @ ws)
   \<and> trim (g @ js '':'' @ ws) = trimStart g @ js '':''
   \<and> exec flags_none BULLET_RE (trim (g @ js '':'' @ ws)) = None
   \<and> exec flags_i CC_RE (g @ js '':'') = None
   \<and> cc_type (g @ js '':'') = None
   \<and> cc_scope (g @ js '':'') = None
   \<and> \<not> cc_bang (g @ js '':'')"
proof -
  have "58 \<notin> set (trimStart g)"
    using assms(1) set_dropWhileD [of 58 is_space g] by (auto simp: trimStart_def)
  from no_subject_BULLET [OF this]
  have b: "exec flags_none BULLET_RE (trim (g @ js '':'' @ ws)) = None"
    by (simp add: trim_colon [OF assms(2)]) (simp add: js_def)
  have c: "exec flags_i CC_RE (g @ js '':'') = None"
    using no_subject_CC [OF assms(1)] by (simp add: js_def)
  show ?thesis
    using b c trim_colon [OF assms(2), of g]
    by (simp add: normalizeTitleForBullet_def cc_type_def cc_scope_def cc_bang_def)
qed

theorem empty_subject_witness:
  "normalizeTitleForBullet (js ''fix: '') = js ''fix:''
   \<and> normalizeTitleForBullet (js ''feat(core)!:'') = js ''feat(core)!:''
   \<and> cc_type (js ''fix:'') = None \<and> cc_scope (js ''feat(core)!:'') = None
   \<and> \<not> cc_bang (js ''feat(core)!:'')"
proof -
  have 1: "58 \<notin> set (js ''fix'')" "58 \<notin> set (js ''feat(core)!'')"
    by (simp_all add: js_def)
  have 2: "list_all is_space (js '' '')" "list_all is_space []"
    by (simp_all add: js_def is_space_def)
  show ?thesis
    using empty_subject [OF 1(1) 2(1)] empty_subject [OF 1(2) 2(2)] empty_subject [OF 1(1) 2(2)]
    by (simp add: js_def trimStart_def is_space_def)
qed

section \<open>Insertion into a category\<close>










section \<open>Collapsing line feeds\<close>

lemma takeWhile_nl_append:
  assumes "s \<noteq> []" and "last s \<noteq> (10::nat)"
  shows "takeWhile (\<lambda>x. x = 10) (s @ t) = takeWhile (\<lambda>x. x = 10) s"
    and "dropWhile (\<lambda>x. x = 10) (s @ t) = dropWhile (\<lambda>x. x = 10) s @ t"
    and "dropWhile (\<lambda>x. x = 10) s \<noteq> []"
    and "last (dropWhile (\<lambda>x. x = 10) s) = last s"
proof -
  have m: "last s \<in> set s" using assms(1) by simp
  show "takeWhile (\<lambda>x. x = 10) (s @ t) = takeWhile (\<lambda>x. x = 10) s"
    using m assms(2) by (intro takeWhile_append1) auto
  show "dropWhile (\<lambda>x. x = 10) (s @ t) = dropWhile (\<lambda>x. x = 10) s @ t"
    using m assms(2) by (intro dropWhile_append1) auto
  show n: "dropWhile (\<lambda>x. x = 10) s \<noteq> []"
    using m assms(2) by (auto simp: dropWhile_eq_Nil_conv)
  have "s = takeWhile (\<lambda>x. x = 10) s @ dropWhile (\<lambda>x. x = 10) s" by simp
  then have "last s = last (takeWhile (\<lambda>x. x = 10) s @ dropWhile (\<lambda>x. x = 10) s)" by simp
  also have "\<dots> = last (dropWhile (\<lambda>x. x = 10) s)" using n by (rule last_appendR)
  finally show "last (dropWhile (\<lambda>x. x = 10) s) = last s" by simp
qed

lemma collapse_append:
  "s \<noteq> [] \<Longrightarrow> last s \<noteq> 10 \<Longrightarrow> collapse (s @ t) = collapse s @ collapse t"
proof (induction s rule: collapse.induct)
  case 1
  then show ?case by simp
next
  case (2 c s)
  show ?case
  proof (cases "s = []")
    case True
    then show ?thesis using "2.prems" by simp
  next
    case False
    then have l: "last s \<noteq> 10" using "2.prems" by simp
    note tw = takeWhile_nl_append [OF False l]
    show ?thesis
    proof (cases "c = 10 \<and> 2 \<le> length (takeWhile (\<lambda>x. x = 10) s)")
      case True
      then have "collapse (dropWhile (\<lambda>x. x = 10) s @ t)
          = collapse (dropWhile (\<lambda>x. x = 10) s) @ collapse t"
        using "2.IH"(1) tw(3,4) l by simp
      then show ?thesis using True tw(1,2) [of t] by simp
    next
      case f: False
      then have "collapse (s @ t) = collapse s @ collapse t"
        using "2.IH"(2) False l by simp
      then show ?thesis using f tw(1) [of t] by auto
    qed
  qed
qed

lemma collapse_two:
  "t = [] \<or> hd t \<noteq> 10 \<Longrightarrow> collapse (10 # 10 # t) = 10 # 10 # collapse t"
  by (cases t) auto





section \<open>Lines\<close>

lemma split_crlf_nonempty: "split_crlf t \<noteq> []"
  by (induction t rule: split_crlf.induct) (auto simp: Let_def)

lemma split_crlf_no_nl: "l \<in> set (split_crlf t) \<Longrightarrow> 10 \<notin> set l"
proof (induction t arbitrary: l rule: split_crlf.induct)
  case 1
  then show ?case by simp
next
  case (2 c)
  then show ?case by (auto split: if_splits)
next
  case (3 c d s)
  show ?case
  proof (cases "c = 10")
    case True
    then show ?thesis using 3 by auto
  next
    case c: False
    show ?thesis
    proof (cases "c = 13 \<and> d = 10")
      case True
      then show ?thesis using 3 c by auto
    next
      case False
      define r where "r = split_crlf (d # s)"
      have r: "r \<noteq> []" unfolding r_def by (rule split_crlf_nonempty)
      then have hr: "hd r \<in> set r" by simp
      have "l = c # hd r \<or> l \<in> set (tl r)"
        using "3.prems" c False by (auto simp: Let_def r_def)
      then show ?thesis
      proof
        assume "l = c # hd r"
        then show ?thesis using "3.IH"(3) [OF c False, of "hd r"] hr c by (auto simp: r_def)
      next
        assume "l \<in> set (tl r)"
        then have "l \<in> set r" using r by (metis list.set_sel(2))
        then show ?thesis using "3.IH"(3) [OF c False, of l] by (simp add: r_def)
      qed
    qed
  qed
qed

lemma join_nl_snoc: "xs \<noteq> [] \<Longrightarrow> join_nl (xs @ [l]) = join_nl xs @ 10 # l"
  by (induction xs rule: join_nl.induct) auto

lemma join_nl_Cons: "xs \<noteq> [] \<Longrightarrow> join_nl (l # xs) = l @ 10 # join_nl xs"
  by (cases xs) auto

lemma join_nl_last:
  "l \<noteq> [] \<Longrightarrow> join_nl (xs @ [l]) \<noteq> [] \<and> last (join_nl (xs @ [l])) = last l"
  by (cases "xs = []") (simp_all add: join_nl_snoc)

lemma join_nl_hd:
  "l \<noteq> [] \<Longrightarrow> join_nl (l # xs) \<noteq> [] \<and> hd (join_nl (l # xs)) = hd l"
  by (cases "xs = []") (simp_all add: join_nl_Cons)


section \<open>The two section markers\<close>

lemma UNRELEASED_nonempty: "test flags_im UNRELEASED_HEADER_RE l \<Longrightarrow> l \<noteq> []"
proof
  assume "test flags_im UNRELEASED_HEADER_RE l" and "l = []"
  then have "sem flags_im UNRELEASED_HEADER_RE [] [] []"
    unfolding test_iff_sem by simp
  then show False
    by (simp add: UNRELEASED_HEADER_RE_def js_def)
qed

lemma SECTION_hd: "test flags_none SECTION_RE l \<Longrightarrow> l \<noteq> [] \<and> hd l = 35"
proof -
  assume "test flags_none SECTION_RE l"
  then obtain p m q where l: "l = p @ m @ q" and s: "sem flags_none SECTION_RE p m q"
    unfolding test_iff_sem by blast
  from s obtain m' where "p = []" "m = js ''##'' @ m'"
    by (auto simp: SECTION_RE_def)
  with l show ?thesis by (simp add: js_def)
qed

section \<open>The captured staging section\<close>

lemma first_index_Some:
  "first_index P xs = Some i \<Longrightarrow> i < length xs \<and> P (xs ! i)"
proof -
  assume a: "first_index P xs = Some i"
  then have e: "list_ex P xs" and i: "i = length (takeWhile (\<lambda>x. \<not> P x) xs)"
    by (auto simp: first_index_def split: if_splits)
  from e have "takeWhile (\<lambda>x. \<not> P x) xs \<noteq> xs"
    by (auto simp: list_ex_iff takeWhile_eq_all_conv)
  then have "length (takeWhile (\<lambda>x. \<not> P x) xs) \<noteq> length xs"
    by (metis takeWhile_dropWhile_id append_eq_conv_conj take_all_iff order_refl)
  then have "length (takeWhile (\<lambda>x. \<not> P x) xs) < length xs"
    using length_takeWhile_le [of "\<lambda>x. \<not> P x" xs] by linarith
  moreover from this have "\<not> \<not> P (xs ! length (takeWhile (\<lambda>x. \<not> P x) xs))"
    by (rule nth_length_takeWhile)
  ultimately show ?thesis using i by simp
qed

lemma capture_Some:
  assumes "captureUnreleased t = Some cap"
  shows "clines cap = split_crlf t"
    and "cstart cap < length (clines cap)"
    and "test flags_im UNRELEASED_HEADER_RE (clines cap ! cstart cap)"
    and "cstart cap < cend cap" and "cend cap \<le> length (clines cap)"
    and "cend cap < length (clines cap) \<Longrightarrow> test flags_none SECTION_RE (clines cap ! cend cap)"
    and "cbody cap = join_nl (slice (cstart cap + 1) (cend cap) (clines cap))"
    and "cheader cap = clines cap ! cstart cap"
proof -
  define lines where "lines = split_crlf t"
  from assms obtain start where
    st: "first_index (test flags_im UNRELEASED_HEADER_RE) lines = Some start"
    by (auto simp: captureUnreleased_def Let_def lines_def split: option.splits)
  define e where "e = (case first_index (test flags_none SECTION_RE) (drop (start + 1) lines) of
                        None \<Rightarrow> length lines | Some k \<Rightarrow> start + 1 + k)"
  have cap: "cap = \<lparr>cstart = start, cend = e, cheader = lines ! start,
                     cbody = join_nl (slice (start + 1) e lines), clines = lines\<rparr>"
    using assms st unfolding captureUnreleased_def Let_def lines_def e_def by simp
  note s = first_index_Some [OF st]
  show "clines cap = split_crlf t" by (simp add: cap lines_def)
  show "cstart cap < length (clines cap)" using s by (simp add: cap)
  show "test flags_im UNRELEASED_HEADER_RE (clines cap ! cstart cap)" using s by (simp add: cap)
  show "cbody cap = join_nl (slice (cstart cap + 1) (cend cap) (clines cap))" by (simp add: cap)
  show "cheader cap = clines cap ! cstart cap" by (simp add: cap)
  show "cstart cap < cend cap" using s
    by (cases "first_index (test flags_none SECTION_RE) (drop (start + 1) lines)")
      (simp_all add: cap e_def)
  show "cend cap \<le> length (clines cap)"
  proof (cases "first_index (test flags_none SECTION_RE) (drop (start + 1) lines)")
    case None
    then show ?thesis by (simp add: cap e_def)
  next
    case (Some k)
    from first_index_Some [OF this] have "k < length lines - Suc start" by simp
    then have "Suc (start + k) \<le> length lines" by linarith
    then show ?thesis using Some by (simp add: cap e_def)
  qed
  show "test flags_none SECTION_RE (clines cap ! cend cap)" if "cend cap < length (clines cap)"
  proof (cases "first_index (test flags_none SECTION_RE) (drop (start + 1) lines)")
    case None
    then show ?thesis using that by (simp add: cap e_def)
  next
    case (Some k)
    from first_index_Some [OF this]
    have k: "k < length lines - Suc start" "test flags_none SECTION_RE (drop (Suc start) lines ! k)"
      by simp_all
    from k(1) have "Suc start \<le> length lines" by linarith
    then have "drop (Suc start) lines ! k = lines ! (Suc start + k)" by (rule nth_drop)
    with k(2) show ?thesis using Some by (simp add: cap e_def)
  qed
qed

text \<open>
  The text up to the staging header ends with something else than a line feed; the
  text from the next section on is empty or starts with a hash.
\<close>

lemma capture_before:
  assumes "captureUnreleased t = Some cap"
  shows "join_nl (slice 0 (cstart cap + 1) (clines cap)) \<noteq> []"
    and "last (join_nl (slice 0 (cstart cap + 1) (clines cap))) \<noteq> 10"
proof -
  note c = capture_Some [OF assms]
  let ?l = "clines cap ! cstart cap"
  have t: "slice 0 (cstart cap + 1) (clines cap) = take (cstart cap) (clines cap) @ [?l]"
    using c(2) by (simp add: slice_def take_Suc_conv_app_nth)
  have l: "?l \<noteq> []" using c(3) by (rule UNRELEASED_nonempty)
  have "?l \<in> set (split_crlf t)" using c(1,2) by (metis nth_mem)
  then have "10 \<notin> set ?l" by (rule split_crlf_no_nl)
  then have "last ?l \<noteq> 10" using l by (metis last_in_set)
  with join_nl_last [OF l, of "take (cstart cap) (clines cap)"] t
  show "join_nl (slice 0 (cstart cap + 1) (clines cap)) \<noteq> []"
    and "last (join_nl (slice 0 (cstart cap + 1) (clines cap))) \<noteq> 10"
    by simp_all
qed

lemma capture_after:
  assumes "captureUnreleased t = Some cap"
  shows "join_nl (drop (cend cap) (clines cap)) = []
         \<or> hd (join_nl (drop (cend cap) (clines cap))) = 35"
proof (cases "cend cap < length (clines cap)")
  case True
  note c = capture_Some [OF assms]
  let ?l = "clines cap ! cend cap"
  have d: "drop (cend cap) (clines cap) = ?l # drop (Suc (cend cap)) (clines cap)"
    using True by (simp add: Cons_nth_drop_Suc)
  from SECTION_hd [OF c(6) [OF True]] have "?l \<noteq> []" "hd ?l = 35" by simp_all
  with join_nl_hd [of ?l "drop (Suc (cend cap)) (clines cap)"] d show ?thesis by simp
next
  case False
  then show ?thesis by simp
qed

section \<open>Replacing the staging section\<close>

lemma trimEnd_nonempty:
  assumes "\<exists>c \<in> set s. \<not> is_space c"
  shows "trimEnd s \<noteq> []" and "\<not> is_space (last (trimEnd s))"
proof -
  have n: "dropWhile is_space (rev s) \<noteq> []"
    using assms by (auto simp: dropWhile_eq_Nil_conv)
  then show "trimEnd s \<noteq> []" by (simp add: trimEnd_def)
  have "\<not> is_space (hd (dropWhile is_space (rev s)))"
    using n by (rule hd_dropWhile)
  then show "\<not> is_space (last (trimEnd s))"
    using n by (simp add: trimEnd_def last_rev)
qed

lemma is_space_nl: "is_space 10"
  by (simp add: is_space_def)

lemma replace_decomp:
  assumes cap: "captureUnreleased (ensureHeaderAndUnreleased full) = Some cap"
    and upd: "\<exists>c \<in> set (updater (cbody cap)). \<not> is_space c"
  shows "replaceUnreleasedSection full updater =
           collapse (join_nl (slice 0 (cstart cap + 1) (clines cap)))
           @ collapse (10 # trimEnd (updater (cbody cap)))
           @ [10, 10]
           @ collapse (join_nl (drop (cend cap) (clines cap)))"
proof -
  let ?before = "join_nl (slice 0 (cstart cap + 1) (clines cap))"
  let ?after = "join_nl (drop (cend cap) (clines cap))"
  let ?X = "trimEnd (updater (cbody cap))"
  note b = capture_before [OF cap]
  note a = capture_after [OF cap]
  note x = trimEnd_nonempty [OF upd]
  have x10: "last (10 # ?X) \<noteq> 10" using x is_space_nl by auto
  have "replaceUnreleasedSection full updater = collapse (join_nl [?before, ?X, [], ?after])"
    by (simp add: replaceUnreleasedSection_def cap Let_def)
  also have "join_nl [?before, ?X, [], ?after] = ?before @ ((10 # ?X) @ (10 # 10 # ?after))"
    by simp
  also have "collapse \<dots> = collapse ?before @ collapse ((10 # ?X) @ (10 # 10 # ?after))"
    using b by (rule collapse_append)
  also have "collapse ((10 # ?X) @ (10 # 10 # ?after))
      = collapse (10 # ?X) @ collapse (10 # 10 # ?after)"
    using x10 by (intro collapse_append) simp_all
  also have "collapse (10 # 10 # ?after) = 10 # 10 # collapse ?after"
    using a by (intro collapse_two) auto
  finally show ?thesis by simp
qed

lemma ensure_ensure:
  "ensureHeaderAndUnreleased (ensureHeaderAndUnreleased x) = ensureHeaderAndUnreleased x"
  by (rule ensure_fixpoint) (rule ensure_has_title, rule ensure_has_unreleased)





text \<open>Evaluation of the patterns on the lines of the concrete documents.\<close>

lemma UNRELEASED_lines:
  "\<not> test flags_im UNRELEASED_HEADER_RE (js ''# Changelog'')"
  "test flags_im UNRELEASED_HEADER_RE (js ''## [Unreleased]'')"
  by (simp_all add: UNRELEASED_HEADER_RE_def flags_im_def rx_eval js_def is_space_def lower_cu_def)

lemma SECTION_lines:
  "test flags_none SECTION_RE (js ''## [1.0.0]'')"
  "\<not> test flags_none SECTION_RE (js ''### Features'')"
  "\<not> test flags_none SECTION_RE (js ''- x (#1)'')"
  "\<not> test flags_none SECTION_RE []"
  by (simp_all add: SECTION_RE_def flags_none_def rx_eval js_def is_space_def)





lemma entry_A_bullet:
  "formatBullet (entry_title entry_A) (entry_prNumber entry_A) (entry_scope entry_A)
     = js ''- clamp invalid question number (#55)''"
  "entry_category entry_A = js ''Fixes''"
  by (simp_all add: entry_A_def formatBullet_A)



section \<open>Release cutover\<close>







lemma long_line:
  "\<not> test flags_im UNRELEASED_HEADER_RE
       (js ''All notable changes to this project will be documented in this file.'')"
  "\<not> test flags_im UNRELEASED_HEADER_RE []"
  by (simp_all add: UNRELEASED_HEADER_RE_def flags_im_def rx_eval js_def is_space_def lower_cu_def)


lemma capture_HEADER:
  "captureUnreleased HEADER =
     Some \<lparr>cstart = 3, cend = 6, cheader = js ''## [Unreleased]'', cbody = [10],
           clines = [js ''# Changelog'',
                     js ''All notable changes to this project will be documented in this file.'',
                     [], js ''## [Unreleased]'', [], []]\<rparr>"
proof -
  have l: "split_crlf HEADER
      = [js ''# Changelog'',
         js ''All notable changes to this project will be documented in this file.'',
         [], js ''## [Unreleased]'', [], []]"
    by (simp add: HEADER_def js_def)
  show ?thesis
    unfolding captureUnreleased_def l Let_def
    by (simp add: first_index_def UNRELEASED_lines long_line SECTION_lines slice_def)
qed

lemma doc_A_is_scenario_A: "addUnreleasedEntry None entry_A = doc_A"
proof -
  have e: "ensureHeaderAndUnreleased HEADER = HEADER"
    using ensure_empty ensure_ensure [of "[]"] by simp
  let ?upd = "\<lambda>body. insertIntoUnreleasedCategory body (js ''Fixes'')
                  (js ''- clamp invalid question number (#55)'')"
  have u: "?upd [10] = js ''### Fixes\<newline>- clamp invalid question number (#55)\<newline>\<newline>''"
    by (simp add: insertIntoUnreleasedCategory_def catHeader_def first_index_def str_eval)
  have c: "captureUnreleased (ensureHeaderAndUnreleased HEADER) =
     Some \<lparr>cstart = 3, cend = 6, cheader = js ''## [Unreleased]'', cbody = [10],
           clines = [js ''# Changelog'',
                     js ''All notable changes to this project will be documented in this file.'',
                     [], js ''## [Unreleased]'', [], []]\<rparr>"
    by (simp only: e capture_HEADER)
  have n: "\<exists>c \<in> set (?upd (cbody \<lparr>cstart = 3, cend = 6, cheader = js ''## [Unreleased]'', cbody = [10],
           clines = [js ''# Changelog'',
                     js ''All notable changes to this project will be documented in this file.'',
                     [], js ''## [Unreleased]'', [], []]\<rparr>)). \<not> is_space c"
    by (simp add: u) (simp add: js_def is_space_def)
  have t: "trimEnd (js ''### Fixes\<newline>- clamp invalid question number (#55)\<newline>\<newline>'')
      = js ''### Fixes\<newline>- clamp invalid question number (#55)''"
    by (simp add: str_eval)
  show ?thesis
    unfolding addUnreleasedEntry_def option.case Let_def entry_A_bullet e
    by (simp only: replace_decomp [of HEADER _ ?upd, OF c n])
      (simp add: u t slice_def doc_A_def, simp add: js_def)
qed

section \<open>The staging section in terms of the lines of the document\<close>



text \<open>Every list of lines is of one of the two kinds.\<close>

lemma staging_cases:
  "(\<forall>l \<in> set ls. \<not> U l)
   \<or> (\<exists>front h staged behind. ls = front @ h # staged @ behind \<and> (\<forall>l \<in> set front. \<not> U l) \<and> U h
         \<and> (\<forall>l \<in> set staged. \<not> S l) \<and> (behind = [] \<or> S (hd behind)))"
proof (cases "\<forall>l \<in> set ls. \<not> U l")
  case True
  then show ?thesis by simp
next
  case False
  define front where "front = takeWhile (\<lambda>l. \<not> U l) ls"
  define tl' where "tl' = dropWhile (\<lambda>l. \<not> U l) ls"
  have "tl' \<noteq> []" using False by (auto simp: tl'_def dropWhile_eq_Nil_conv)
  then obtain h xs where hx: "tl' = h # xs" by (cases tl') auto
  have uh: "U h" using hd_dropWhile [of "\<lambda>l. \<not> U l" ls] hx False
    by (auto simp: tl'_def)
  define staged where "staged = takeWhile (\<lambda>l. \<not> S l) xs"
  define behind where "behind = dropWhile (\<lambda>l. \<not> S l) xs"
  have r: "behind = [] \<or> S (hd behind)"
    using hd_dropWhile [of "\<lambda>l. \<not> S l" xs] by (auto simp: behind_def)
  have "ls = front @ h # staged @ behind"
    using hx takeWhile_dropWhile_id [of "\<lambda>l. \<not> U l" ls]
      takeWhile_dropWhile_id [of "\<lambda>l. \<not> S l" xs]
    by (simp add: front_def tl'_def staged_def behind_def)
  moreover have "\<forall>l \<in> set front. \<not> U l" by (auto simp: front_def dest: set_takeWhileD)
  moreover have "\<forall>l \<in> set staged. \<not> S l" by (auto simp: staged_def dest: set_takeWhileD)
  ultimately show ?thesis using uh r by blast
qed





















section \<open>Insertion of an entry in terms of the lines of the document\<close>












section \<open>Where the staging section is inserted\<close>

















end
